theory Spec2Isabelle
  imports Complex_Main
begin

section \<open>On-screen-keyboard detection: a model of the detector's three source files\<close>

text \<open>
  The repository infers whether the software keyboard is showing. It has three parts:
  the standalone focus-based emitter, the visual-viewport strategy used on iOS
  (\<^verbatim>\<open>oskd-ios.js\<close>) and the multi-signal strategy of \<^verbatim>\<open>src/lib/index.js\<close>, which
  is a network of @most/core streams.

  Pixel sizes read from \<^verbatim>\<open>window\<close> and \<^verbatim>\<open>screen\<close> are integers (\<^typ>\<open>int\<close>); the
  height carried by a visual-viewport event is a JavaScript number, idealised as a
  \<^typ>\<open>real\<close>, as are the products \<^verbatim>\<open>0.1 * x\<close> and \<^verbatim>\<open>0.9 * x\<close>. The keyboard states
  handed to the consumer are the strings the source passes.
\<close>

subsection \<open>The standalone focus-based emitter\<close>

text \<open>
  \<^verbatim>\<open>eventEmitter\<close> is a Node EventEmitter with two extra properties, \<^verbatim>\<open>visible\<close> and
  \<^verbatim>\<open>hidden\<close>, which do not exist until a handler assigns them (\<open>None\<close> is JavaScript's
  \<^verbatim>\<open>undefined\<close>). \<open>emitted\<close> is the sequence of event names passed to \<^verbatim>\<open>emit\<close>. An
  event target has a \<^verbatim>\<open>tagName\<close> and, for form controls only, a \<^verbatim>\<open>type\<close>.
\<close>

record emitter =
  visible :: "bool option"
  hidden :: "bool option"
  emitted :: "string list"

record event_target =
  tagName :: string
  target_type :: "string option"

definition eventEmitter :: emitter where
  "eventEmitter = \<lparr>visible = None, hidden = None, emitted = []\<rparr>"

definition is_text_input :: "event_target \<Rightarrow> bool" where
  "is_text_input tg \<longleftrightarrow> tagName tg = ''INPUT'' \<and> target_type tg = Some ''text''"

definition on_focusin :: "emitter \<Rightarrow> event_target \<Rightarrow> emitter" where
  "on_focusin e tg =
     (if is_text_input tg
      then e\<lparr>emitted := emitted e @ [''change'', ''show''], visible := Some True, hidden := Some False\<rparr>
      else e)"

definition on_focusout :: "emitter \<Rightarrow> event_target \<Rightarrow> emitter" where
  "on_focusout e tg =
     (if is_text_input tg
      then e\<lparr>emitted := emitted e @ [''change'', ''hide''], visible := Some False, hidden := Some True\<rparr>
      else e)"

subsection \<open>Capability probe and strategy selection\<close>

text \<open>
  The module-level constants of \<^verbatim>\<open>index.js\<close> and \<^verbatim>\<open>oskd-ios.js\<close>. The three regular
  expression tests on \<^verbatim>\<open>navigator.userAgent\<close> are taken as their boolean results.
\<close>

record device =
  ua_has_Macintosh :: bool
  ua_has_iPhone :: bool
  ua_has_Mobile :: bool
  isTouchable :: bool
  isVisualViewportSupported :: bool

definition isIPad :: "device \<Rightarrow> bool" where
  "isIPad d \<longleftrightarrow> ua_has_Macintosh d \<and> isTouchable d"

definition isIPhone :: "device \<Rightarrow> bool" where
  "isIPhone d \<longleftrightarrow> ua_has_iPhone d \<and> ua_has_Mobile d \<and> isTouchable d"

definition isIOS :: "device \<Rightarrow> bool" where
  "isIOS d \<longleftrightarrow> isIPad d \<or> isIPhone d"

definition ios_isSupported :: "device \<Rightarrow> bool" where
  "ios_isSupported d = isVisualViewportSupported d"

definition isSupported :: "device \<Rightarrow> bool" where
  "isSupported d = (if isIOS d then ios_isSupported d else isTouchable d)"

subsection \<open>Strategy A: the visual-viewport ratio (\<^verbatim>\<open>oskd-ios.js\<close>)\<close>

text \<open>
  The quotient \<^verbatim>\<open>(window.innerHeight - evt.target.height) / window.innerHeight\<close> is a
  JavaScript division: by zero it gives an infinity or NaN, never an exception, and a
  comparison with NaN is false.
\<close>

datatype jsnum = Num real | PosInf | NegInf | NaN

definition js_div :: "real \<Rightarrow> real \<Rightarrow> jsnum" where
  "js_div a b =
     (if b \<noteq> 0 then Num (a / b)
      else if 0 < a then PosInf
      else if a < 0 then NegInf
      else NaN)"

fun js_gt :: "jsnum \<Rightarrow> real \<Rightarrow> bool" where
  "js_gt (Num r) c \<longleftrightarrow> c < r"
| "js_gt PosInf c \<longleftrightarrow> True"
| "js_gt NegInf c \<longleftrightarrow> False"
| "js_gt NaN c \<longleftrightarrow> False"

definition relativeDifference :: "int \<Rightarrow> real \<Rightarrow> jsnum" where
  "relativeDifference innerHeight_now viewportHeight =
     js_div (real_of_int innerHeight_now - viewportHeight) (real_of_int innerHeight_now)"

text \<open>The argument \<^verbatim>\<open>onResize\<close> passes to \<^verbatim>\<open>nonRepeatingCallback\<close>.\<close>

definition onResize_state :: "int \<Rightarrow> real \<Rightarrow> string" where
  "onResize_state innerHeight_now viewportHeight =
     (if js_gt (relativeDifference innerHeight_now viewportHeight) 0.1
      then ''visible'' else ''hidden'')"

text \<open>
  \<^verbatim>\<open>skipDuplicates\<close> closes over the variable \<^verbatim>\<open>previous\<close>. One call of the returned
  function takes the stored value and the next one, and gives the new stored value with
  the calls of \<^verbatim>\<open>whenDifferent\<close> it made.
\<close>

definition one_time_initial :: string where
  "one_time_initial = ''_one_time_initial_''"

definition skipDuplicates :: "string \<Rightarrow> string \<Rightarrow> string \<times> string list" where
  "skipDuplicates previous nxt =
     (if nxt \<noteq> previous then (nxt, [nxt]) else (previous, []))"

text \<open>
  A subscription of Strategy A: whether \<^verbatim>\<open>onResize\<close> is registered on
  \<^verbatim>\<open>visualViewport\<close>, the variable \<^verbatim>\<open>previous\<close>, what the console and the consumer
  callback have received, and which function \<^verbatim>\<open>subscribe\<close> returned.
\<close>

datatype unsubscribe_fn = Return_undefined | Remove_onResize

record ios_session =
  listening :: bool
  previous :: string
  delivered :: "string list"
  console_warn :: "string list"
  unsubscribe :: unsubscribe_fn

definition ios_subscribe :: "device \<Rightarrow> ios_session" where
  "ios_subscribe d =
     (if \<not> ios_isSupported d
      then \<lparr>listening = False, previous = one_time_initial, delivered = [],
            console_warn = [''On-Screen-Keyboard detection not supported on this version of iOS''],
            unsubscribe = Return_undefined\<rparr>
      else \<lparr>listening = True, previous = one_time_initial, delivered = [],
            console_warn = [], unsubscribe = Remove_onResize\<rparr>)"

text \<open>
  What can happen to a subscription: a resize event of the visual viewport (with
  \<^verbatim>\<open>window.innerHeight\<close> at that moment and the event's \<^verbatim>\<open>target.height\<close>), or the
  consumer calling the returned function.
\<close>

datatype ios_event = ViewportResize int real | Call_unsubscribe

definition onResize :: "ios_session \<Rightarrow> int \<Rightarrow> real \<Rightarrow> ios_session" where
  "onResize s innerHeight_now viewportHeight =
     (case skipDuplicates (previous s) (onResize_state innerHeight_now viewportHeight) of
        (p, calls) \<Rightarrow> s\<lparr>previous := p, delivered := delivered s @ calls\<rparr>)"

fun ios_step :: "ios_session \<Rightarrow> ios_event \<Rightarrow> ios_session" where
  "ios_step s (ViewportResize ih vh) = (if listening s then onResize s ih vh else s)"
| "ios_step s Call_unsubscribe =
     (case unsubscribe s of
        Return_undefined \<Rightarrow> s
      | Remove_onResize \<Rightarrow> s\<lparr>listening := False\<rparr>)"

definition ios_run :: "device \<Rightarrow> ios_event list \<Rightarrow> ios_session" where
  "ios_run d evs = foldl ios_step (ios_subscribe d) evs"

subsection \<open>Strategy B: what the browser reports, and the events it raises\<close>

text \<open>
  Time is in milliseconds since \<^verbatim>\<open>subscribe\<close> was called. The environment gives, for
  every instant, the values the source reads from \<^verbatim>\<open>window\<close>, \<^verbatim>\<open>screen\<close> and
  \<^verbatim>\<open>document\<close>; the values read at subscription are those at instant 0.
\<close>

type_synonym time = nat

datatype active_element = No_element | Body_element | Other_element

record platform =
  innerWidth :: int
  innerHeight :: int
  availHeight :: int
  orientation_type :: string
  visibilityState :: string
  activeElement :: active_element

datatype orientation = portrait | landscape

text \<open>
  \<^verbatim>\<open>screen.orientation.type.startsWith('portrait')\<close>: the first eight characters are
  compared. \<^verbatim>\<open>isAnyElementActive\<close> is false when \<^verbatim>\<open>document.activeElement\<close> is null and
  when it is the body.
\<close>

definition getScreenOrientationType :: "platform \<Rightarrow> orientation" where
  "getScreenOrientationType p =
     (if take 8 (orientation_type p) = ''portrait'' then portrait else landscape)"

definition isAnyElementActive :: "platform \<Rightarrow> bool" where
  "isAnyElementActive p \<longleftrightarrow>
     activeElement p \<noteq> No_element \<and> activeElement p \<noteq> Body_element"

text \<open>
  A stream is the finite list of its occurrences so far, each with its time, in the
  order in which they happen. The events raised from outside are the DOM events the
  source listens to and the consumer calling the function \<^verbatim>\<open>subscribe\<close> returned.
\<close>

type_synonym 'a stream = "(time \<times> 'a) list"

datatype dom_event =
  Focusin | Focusout | Orientation_change | Window_resize | Visibilitychange | Unsubscribe

definition chronological :: "'a stream \<Rightarrow> bool" where
  "chronological s \<longleftrightarrow> sorted (map fst s)"

definition domEvent :: "dom_event \<Rightarrow> dom_event stream \<Rightarrow> dom_event stream" where
  "domEvent e evs = filter (\<lambda>(t, x). x = e) evs"

subsection \<open>The @most/core combinators the source uses\<close>

text \<open>
  Each combinator acts on the list of occurrences. A timer that is due at instant \<open>T\<close>
  has fired before an event stamped \<open>T\<close> is handled; a sampled stream's occurrence at
  instant \<open>T\<close> is seen by a sampler at \<open>T\<close>; \<open>merge\<close> puts its first argument first
  where two occurrences carry the same time; \<open>until\<close> keeps what is strictly before the
  end signal.
\<close>

definition delay :: "nat \<Rightarrow> 'a stream \<Rightarrow> 'a stream" where
  "delay d s = map (\<lambda>(t, x). (t + d, x)) s"

fun debounce :: "nat \<Rightarrow> 'a stream \<Rightarrow> 'a stream" where
  "debounce d [] = []"
| "debounce d [(t, x)] = [(t + d, x)]"
| "debounce d ((t, x) # (t', y) # rest) =
     (if t + d \<le> t' then (t + d, x) # debounce d ((t', y) # rest)
      else debounce d ((t', y) # rest))"

text \<open>The value a stream has had most recently at instant \<open>t\<close>, if it has had one.\<close>

definition latest :: "'a stream \<Rightarrow> time \<Rightarrow> 'a option" where
  "latest s t =
     (case filter (\<lambda>(u, x). u \<le> t) s of
        [] \<Rightarrow> None
      | y # ys \<Rightarrow> Some (snd (last (y # ys))))"

text \<open>
  \<open>snapshot f values sampler\<close>: the combining function also gets the instant, because
  the source's functions read \<^verbatim>\<open>window\<close> and \<^verbatim>\<open>screen\<close> when they run. A sampler
  occurrence is dropped while the sampled stream has had no value.
\<close>

fun snapshot :: "(time \<Rightarrow> 'a \<Rightarrow> 'b \<Rightarrow> 'c) \<Rightarrow> 'a stream \<Rightarrow> 'b stream \<Rightarrow> 'c stream" where
  "snapshot f vals [] = []"
| "snapshot f vals ((t, b) # rest) =
     (case latest vals t of
        None \<Rightarrow> snapshot f vals rest
      | Some a \<Rightarrow> (t, f t a b) # snapshot f vals rest)"

text \<open>
  \<open>join\<close> of a stream whose values are \<^verbatim>\<open>now(x)\<close> or \<^verbatim>\<open>empty()\<close>: \<open>Some x\<close> stands
  for \<^verbatim>\<open>now(x)\<close>, \<open>None\<close> for \<^verbatim>\<open>empty()\<close>.
\<close>

fun join :: "'a option stream \<Rightarrow> 'a stream" where
  "join [] = []"
| "join ((t, None) # rest) = join rest"
| "join ((t, Some x) # rest) = (t, x) # join rest"

definition rejectCapture :: "bool stream \<Rightarrow> 'a stream \<Rightarrow> 'a stream" where
  "rejectCapture valve s =
     join (snapshot (\<lambda>t valveValue event. if valveValue then None else Some event) valve s)"

text \<open>\<^verbatim>\<open>scan\<close> emits its seed when it is subscribed, then every accumulated value.\<close>

fun scan_from :: "('s \<Rightarrow> 'a \<Rightarrow> 's) \<Rightarrow> 's \<Rightarrow> 'a stream \<Rightarrow> 's stream" where
  "scan_from f acc [] = []"
| "scan_from f acc ((t, x) # rest) = (t, f acc x) # scan_from f (f acc x) rest"

definition scan :: "('s \<Rightarrow> 'a \<Rightarrow> 's) \<Rightarrow> 's \<Rightarrow> 'a stream \<Rightarrow> 's stream" where
  "scan f seed s = (0, seed) # scan_from f seed s"

text \<open>\<^verbatim>\<open>skipAfter\<close> lets the first value that satisfies the predicate through and ends.\<close>

fun skipAfter :: "('a \<Rightarrow> bool) \<Rightarrow> 'a stream \<Rightarrow> 'a stream" where
  "skipAfter p [] = []"
| "skipAfter p ((t, x) # rest) = (if p x then [(t, x)] else (t, x) # skipAfter p rest)"

text \<open>\<open>skipRepeats\<close> keeps the last value it let through; before the first there is none.\<close>

fun skipRepeats_from :: "'a option \<Rightarrow> 'a stream \<Rightarrow> 'a stream" where
  "skipRepeats_from prev [] = []"
| "skipRepeats_from prev ((t, x) # rest) =
     (if prev = Some x then skipRepeats_from prev rest
      else (t, x) # skipRepeats_from (Some x) rest)"

definition skipRepeats :: "'a stream \<Rightarrow> 'a stream" where
  "skipRepeats s = skipRepeats_from None s"

definition startWith :: "'a \<Rightarrow> 'a stream \<Rightarrow> 'a stream" where
  "startWith x s = (0, x) # s"

fun merge :: "'a stream \<Rightarrow> 'a stream \<Rightarrow> 'a stream" where
  "merge [] ys = ys"
| "merge (x # xs) [] = x # xs"
| "merge ((t, x) # xs) ((u, y) # ys) =
     (if t \<le> u then (t, x) # merge xs ((u, y) # ys)
      else (u, y) # merge ((t, x) # xs) ys)"

definition until :: "'b stream \<Rightarrow> 'a stream \<Rightarrow> 'a stream" where
  "until endSignal s =
     (case endSignal of
        [] \<Rightarrow> s
      | (u, e) # later \<Rightarrow> takeWhile (\<lambda>(t, x). t < u) s)"

text \<open>
  \<^verbatim>\<open>switchLatest\<close> over \<^verbatim>\<open>now(false)\<close> for a focusin and \<^verbatim>\<open>at(700, true)\<close> for a
  focusout: the inner stream of an event is disposed when the next event arrives, so
  the delayed \<open>True\<close> occurs only if the next focus event is not earlier than its due
  time.
\<close>

fun switchLatest_focus :: "nat \<Rightarrow> dom_event stream \<Rightarrow> bool stream" where
  "switchLatest_focus d [] = []"
| "switchLatest_focus d ((t, e) # rest) =
     (if e = Focusin then (t, False) # switchLatest_focus d rest
      else (case rest of
              [] \<Rightarrow> [(t + d, True)]
            | (t', e') # later \<Rightarrow>
                if t + d \<le> t' then (t + d, True) # switchLatest_focus d rest
                else switchLatest_focus d rest))"

subsection \<open>Strategy B: the stream network of \<^verbatim>\<open>initWithCallback\<close>\<close>

text \<open>
  Every stream the source names is a definition of the same name, a function of the
  environment and of the events raised from outside. Some stages inside a \<^verbatim>\<open>pipe\<close> get
  a name of their own: \<open>isUnfocused_raw\<close> (before \<^verbatim>\<open>skipRepeats\<close>),
  \<open>baseline_candidates\<close> and \<open>gated_candidates\<close> (inside \<^verbatim>\<open>layoutHeights\<close>: after
  \<^verbatim>\<open>mergeArray\<close>, and after \<^verbatim>\<open>delay\<close> and \<^verbatim>\<open>rejectCapture\<close>), \<open>classified\<close>,
  \<open>hidden_on_unfocus\<close> and \<open>osk_merged\<close> (inside \<^verbatim>\<open>osk\<close>: after \<^verbatim>\<open>join\<close>, the stream
  merged in, and after \<^verbatim>\<open>merge\<close>). \<^verbatim>\<open>multicast\<close> only shares a stream among its
  consumers and changes no occurrence.
\<close>

definition INPUT_ELEMENT_FOCUS_JUMP_DELAY :: nat where
  "INPUT_ELEMENT_FOCUS_JUMP_DELAY = 700"

definition SCREEN_ORIENTATION_TO_WINDOW_RESIZE_DELAY :: nat where
  "SCREEN_ORIENTATION_TO_WINDOW_RESIZE_DELAY = 700"

definition RESIZE_QUIET_PERIOD :: nat where
  "RESIZE_QUIET_PERIOD = 500"

definition LAYOUT_RESIZE_TO_LAYOUT_HEIGHT_FIX_DELAY :: nat where
  "LAYOUT_RESIZE_TO_LAYOUT_HEIGHT_FIX_DELAY =
     max INPUT_ELEMENT_FOCUS_JUMP_DELAY SCREEN_ORIENTATION_TO_WINDOW_RESIZE_DELAY
       - RESIZE_QUIET_PERIOD + 200"

definition userUnsubscription :: "dom_event stream \<Rightarrow> dom_event stream" where
  "userUnsubscription evs = domEvent Unsubscribe evs"

definition initialLayoutHeight :: "(time \<Rightarrow> platform) \<Rightarrow> int" where
  "initialLayoutHeight env = innerHeight (env 0)"

definition approximateBrowserToolbarHeight :: "(time \<Rightarrow> platform) \<Rightarrow> int" where
  "approximateBrowserToolbarHeight env = availHeight (env 0) - innerHeight (env 0)"

text \<open>
  \<^verbatim>\<open>focus\<close> merges the focusin and the focusout events of the document element: both
  come from the one sequence of DOM events and keep their order in it.
\<close>

definition focus :: "dom_event stream \<Rightarrow> dom_event stream" where
  "focus evs = filter (\<lambda>(t, e). e = Focusin \<or> e = Focusout) evs"

definition documentVisibility :: "(time \<Rightarrow> platform) \<Rightarrow> dom_event stream \<Rightarrow> string stream" where
  "documentVisibility env evs =
     startWith (visibilityState (env 0))
       (map (\<lambda>(t, e). (t, visibilityState (env t))) (domEvent Visibilitychange evs))"

definition isUnfocused_raw :: "(time \<Rightarrow> platform) \<Rightarrow> dom_event stream \<Rightarrow> bool stream" where
  "isUnfocused_raw env evs =
     startWith (\<not> isAnyElementActive (env 0))
       (switchLatest_focus INPUT_ELEMENT_FOCUS_JUMP_DELAY (focus evs))"

definition isUnfocused :: "(time \<Rightarrow> platform) \<Rightarrow> dom_event stream \<Rightarrow> bool stream" where
  "isUnfocused env evs = skipRepeats (isUnfocused_raw env evs)"

record layout_sample =
  screenOrientation :: orientation
  layoutHeight :: int

definition layoutHeightOnOSKFreeOrientationChange ::
  "(time \<Rightarrow> platform) \<Rightarrow> dom_event stream \<Rightarrow> layout_sample stream" where
  "layoutHeightOnOSKFreeOrientationChange env evs =
     map (\<lambda>(t, isOSKFree).
            (t, \<lparr>screenOrientation = getScreenOrientationType (env t),
                 layoutHeight =
                   (if isOSKFree then innerHeight (env t)
                    else availHeight (env t) - approximateBrowserToolbarHeight env)\<rparr>))
       (debounce SCREEN_ORIENTATION_TO_WINDOW_RESIZE_DELAY
          (snapshot
             (\<lambda>t unfocused evt. unfocused \<or> innerHeight (env t) = initialLayoutHeight env)
             (isUnfocused env evs)
             (domEvent Orientation_change evs)))"

definition layoutHeightOnUnfocus ::
  "(time \<Rightarrow> platform) \<Rightarrow> dom_event stream \<Rightarrow> layout_sample stream" where
  "layoutHeightOnUnfocus env evs =
     map (\<lambda>(t, u).
            (t, \<lparr>screenOrientation = getScreenOrientationType (env t),
                 layoutHeight = innerHeight (env t)\<rparr>))
       (filter (\<lambda>(t, u). u = True) (isUnfocused env evs))"

text \<open>
  The BaselineMap is the object \<^verbatim>\<open>scan\<close> accumulates: its keys are the two strings
  \<^verbatim>\<open>getScreenOrientationType\<close> returns.
\<close>

type_synonym baseline_map = "orientation \<rightharpoonup> int"

definition both_recorded :: "baseline_map \<Rightarrow> bool" where
  "both_recorded m \<longleftrightarrow> m portrait \<noteq> None \<and> m landscape \<noteq> None"

definition assoc_sample :: "baseline_map \<Rightarrow> layout_sample \<Rightarrow> baseline_map" where
  "assoc_sample accHeights c = accHeights(screenOrientation c \<mapsto> layoutHeight c)"

definition initial_layoutHeights :: "(time \<Rightarrow> platform) \<Rightarrow> baseline_map" where
  "initial_layoutHeights env = [getScreenOrientationType (env 0) \<mapsto> innerHeight (env 0)]"

definition baseline_candidates ::
  "(time \<Rightarrow> platform) \<Rightarrow> dom_event stream \<Rightarrow> layout_sample stream" where
  "baseline_candidates env evs =
     merge (layoutHeightOnUnfocus env evs) (layoutHeightOnOSKFreeOrientationChange env evs)"

definition gated_candidates ::
  "(time \<Rightarrow> platform) \<Rightarrow> dom_event stream \<Rightarrow> layout_sample stream" where
  "gated_candidates env evs =
     rejectCapture (map (\<lambda>(t, v). (t, v = ''hidden'')) (documentVisibility env evs))
       (delay 1000 (baseline_candidates env evs))"

definition layoutHeights :: "(time \<Rightarrow> platform) \<Rightarrow> dom_event stream \<Rightarrow> baseline_map stream" where
  "layoutHeights env evs =
     skipAfter both_recorded
       (scan assoc_sample (initial_layoutHeights env) (gated_candidates env evs))"

record resize_sample =
  width :: int
  height :: int
  isJustHeightResize :: bool
  dH :: int

definition next_resize_sample :: "resize_sample \<Rightarrow> int \<times> int \<Rightarrow> resize_sample" where
  "next_resize_sample prev sz =
     \<lparr>width = fst sz, height = snd sz,
      isJustHeightResize = (width prev = fst sz),
      dH = snd sz - height prev\<rparr>"

definition layoutHeightOnVerticalResize ::
  "(time \<Rightarrow> platform) \<Rightarrow> dom_event stream \<Rightarrow> resize_sample stream" where
  "layoutHeightOnVerticalResize env evs =
     filter (\<lambda>(t, s). isJustHeightResize s = True)
       (scan next_resize_sample
          \<lparr>width = innerWidth (env 0), height = innerHeight (env 0),
           isJustHeightResize = False, dH = 0\<rparr>
          (map (\<lambda>(t, evt). (t, (innerWidth (env t), innerHeight (env t))))
             (debounce RESIZE_QUIET_PERIOD (domEvent Window_resize evs))))"

text \<open>
  The function \<^verbatim>\<open>osk\<close> gives to \<^verbatim>\<open>snapshot\<close>. \<^verbatim>\<open>!nonOSKLayoutHeight\<close> holds for a
  missing key and for the height 0.
\<close>

definition classify_without_baseline :: "platform \<Rightarrow> resize_sample \<Rightarrow> string option" where
  "classify_without_baseline p s =
     (if real_of_int (dH s) > 0.1 * real_of_int (availHeight p) then Some ''hidden''
      else if real_of_int (dH s) < - 0.1 * real_of_int (availHeight p) then Some ''visible''
      else None)"

definition classify :: "platform \<Rightarrow> baseline_map \<Rightarrow> resize_sample \<Rightarrow> string option" where
  "classify p layoutHeightByOrientation s =
     (case layoutHeightByOrientation (getScreenOrientationType p) of
        None \<Rightarrow> classify_without_baseline p s
      | Some nonOSKLayoutHeight \<Rightarrow>
          if nonOSKLayoutHeight = 0 then classify_without_baseline p s
          else if real_of_int (height s) < 0.9 * real_of_int nonOSKLayoutHeight \<and> dH s < 0
            then Some ''visible''
          else if height s = nonOSKLayoutHeight \<and> dH s > 0 then Some ''hidden''
          else None)"

definition classified :: "(time \<Rightarrow> platform) \<Rightarrow> dom_event stream \<Rightarrow> string stream" where
  "classified env evs =
     join (snapshot (\<lambda>t layoutHeightByOrientation s. classify (env t) layoutHeightByOrientation s)
             (layoutHeights env evs)
             (delay LAYOUT_RESIZE_TO_LAYOUT_HEIGHT_FIX_DELAY (layoutHeightOnVerticalResize env evs)))"

definition hidden_on_unfocus :: "(time \<Rightarrow> platform) \<Rightarrow> dom_event stream \<Rightarrow> string stream" where
  "hidden_on_unfocus env evs =
     map (\<lambda>(t, u). (t, ''hidden'')) (filter (\<lambda>(t, u). u = True) (isUnfocused env evs))"

definition osk_merged :: "(time \<Rightarrow> platform) \<Rightarrow> dom_event stream \<Rightarrow> string stream" where
  "osk_merged env evs = merge (hidden_on_unfocus env evs) (classified env evs)"

text \<open>\<open>osk\<close> is what \<^verbatim>\<open>runEffects (tap userCallback osk)\<close> passes to the consumer.\<close>

definition osk :: "(time \<Rightarrow> platform) \<Rightarrow> dom_event stream \<Rightarrow> string stream" where
  "osk env evs = skipRepeats (until (userUnsubscription evs) (osk_merged env evs))"

subsection \<open>The public entry point\<close>

text \<open>
  \<^verbatim>\<open>initWithCallback\<close> hands the callback to Strategy A on iOS and runs Strategy B
  otherwise. Its outcome: the states the consumer callback receives, in order, what
  was written to the console, and the function returned.
\<close>

datatype returned_fn = Ios_unsubscribe unsubscribe_fn | InduceUnsubscribe

record subscription =
  callback_calls :: "string list"
  warnings :: "string list"
  returned :: returned_fn

definition initWithCallback ::
  "device \<Rightarrow> ios_event list \<Rightarrow> (time \<Rightarrow> platform) \<Rightarrow> dom_event stream \<Rightarrow> subscription" where
  "initWithCallback d ios_evs env evs =
     (if isIOS d
      then \<lparr>callback_calls = delivered (ios_run d ios_evs),
            warnings = console_warn (ios_run d ios_evs),
            returned = Ios_unsubscribe (unsubscribe (ios_subscribe d))\<rparr>
      else \<lparr>callback_calls = map snd (osk env evs),
            warnings = [],
            returned = InduceUnsubscribe\<rparr>)"

subsection \<open>Example sessions\<close>

text \<open>
  A phone held upright, 400 wide, with an input focused at subscription. The window is
  700 high, shrinks to 600 at instant 1000 and is back at 700 from instant 5000.
\<close>

definition focused_phone :: "time \<Rightarrow> platform" where
  "focused_phone t =
     \<lparr>innerWidth = 400,
      innerHeight = (if t < 1000 then 700 else if t < 5000 then 600 else 700),
      availHeight = 800, orientation_type = ''portrait-primary'',
      visibilityState = ''visible'', activeElement = Other_element\<rparr>"

text \<open>The same phone with the page in the background all the time.\<close>

definition background_phone :: "time \<Rightarrow> platform" where
  "background_phone t = (focused_phone t)\<lparr>visibilityState := ''hidden''\<rparr>"

definition two_resizes :: "dom_event stream" where
  "two_resizes = [(1000, Window_resize), (5000, Window_resize)]"

text \<open>
  A phone with nothing focused at subscription; an input is focused at 1000 and left at
  2000, focused again at 4000, and the window shrinks from 700 to 400 at 4100.
\<close>

definition idle_phone :: "time \<Rightarrow> platform" where
  "idle_phone t =
     \<lparr>innerWidth = 400, innerHeight = (if t < 4100 then 700 else 400),
      availHeight = 800, orientation_type = ''portrait-primary'',
      visibilityState = ''visible'', activeElement = Body_element\<rparr>"

definition focus_twice :: "dom_event stream" where
  "focus_twice = [(1000, Focusin), (2000, Focusout), (4000, Focusin), (4100, Window_resize)]"

text \<open>
  A phone with an input focused, whose window is 700 high at subscription and 400 from
  instant 500 on; it is turned at 1000, and from 1100 the screen reports landscape and
  an available height of 450.
\<close>

definition turned_phone :: "time \<Rightarrow> platform" where
  "turned_phone t =
     \<lparr>innerWidth = (if t < 1100 then 400 else 800),
      innerHeight = (if t < 500 then 700 else 400),
      availHeight = (if t < 1100 then 800 else 450),
      orientation_type = (if t < 1100 then ''portrait-primary'' else ''landscape-primary''),
      visibilityState = ''visible'', activeElement = Other_element\<rparr>"

definition one_turn :: "dom_event stream" where
  "one_turn = [(1000, Orientation_change)]"

text \<open>The same turn, with the input losing focus afterwards, at instant 5000.\<close>

definition turn_then_blur :: "dom_event stream" where
  "turn_then_blur = [(1000, Orientation_change), (5000, Focusout)]"

text \<open>The same turn, with the input losing focus just before, at instant 900.\<close>

definition blur_then_turn :: "dom_event stream" where
  "blur_then_turn = [(900, Focusout), (1000, Orientation_change)]"

text \<open>Two orientation changes 300 ms apart.\<close>

definition double_turn :: "dom_event stream" where
  "double_turn = [(1000, Orientation_change), (1300, Orientation_change)]"

section \<open>Properties\<close>

subsection \<open>The standalone focus-based emitter\<close>

text \<open>
  C10. A focusin or focusout event whose target is not an input element of type
  \<^verbatim>\<open>text\<close> emits nothing and leaves the emitter as it was; a handled focusin sets
  \<open>visible\<close> to true and \<open>hidden\<close> to false, a handled focusout sets \<open>visible\<close> to
  false and \<open>hidden\<close> to true, so after every handled event \<open>visible\<close> is the negation
  of \<open>hidden\<close>.
\<close>

theorem focus_emitter_flags:
  "(\<not> is_text_input tg \<longrightarrow> on_focusin e tg = e \<and> on_focusout e tg = e)
   \<and> (is_text_input tg \<longrightarrow>
        visible (on_focusin e tg) = Some True \<and> hidden (on_focusin e tg) = Some False
      \<and> visible (on_focusout e tg) = Some False \<and> hidden (on_focusout e tg) = Some True
      \<and> emitted (on_focusin e tg) = emitted e @ [''change'', ''show'']
      \<and> emitted (on_focusout e tg) = emitted e @ [''change'', ''hide''])"
  by (simp add: on_focusin_def on_focusout_def)

theorem focus_emitter_flags_witness:
  "on_focusin eventEmitter \<lparr>tagName = ''DIV'', target_type = None\<rparr> = eventEmitter
   \<and> on_focusout eventEmitter \<lparr>tagName = ''INPUT'', target_type = Some ''password''\<rparr> = eventEmitter
   \<and> visible (on_focusin eventEmitter \<lparr>tagName = ''INPUT'', target_type = Some ''text''\<rparr>) = Some True
   \<and> hidden (on_focusin eventEmitter \<lparr>tagName = ''INPUT'', target_type = Some ''text''\<rparr>) = Some False
   \<and> visible (on_focusout eventEmitter \<lparr>tagName = ''INPUT'', target_type = Some ''text''\<rparr>) = Some False
   \<and> hidden (on_focusout eventEmitter \<lparr>tagName = ''INPUT'', target_type = Some ''text''\<rparr>) = Some True"
  using focus_emitter_flags [of "\<lparr>tagName = ''DIV'', target_type = None\<rparr>" eventEmitter]
    focus_emitter_flags [of "\<lparr>tagName = ''INPUT'', target_type = Some ''password''\<rparr>" eventEmitter]
    focus_emitter_flags [of "\<lparr>tagName = ''INPUT'', target_type = Some ''text''\<rparr>" eventEmitter]
  by (simp add: is_text_input_def)

subsection \<open>Strategy A and the unsupported platform\<close>

lemma ios_run_unsupported:
  "\<not> isVisualViewportSupported d \<Longrightarrow> foldl ios_step (ios_subscribe d) evs = ios_subscribe d"
proof (induction evs rule: rev_induct)
  case Nil
  then show ?case by simp
next
  case (snoc e evs)
  then show ?case
    by (cases e) (simp_all add: ios_subscribe_def ios_isSupported_def)
qed

text \<open>
  C9. On a device of the iOS family without \<^verbatim>\<open>visualViewport\<close>, \<^verbatim>\<open>isSupported()\<close> is
  false; \<^verbatim>\<open>subscribe\<close> registers nothing, so whatever events follow the callback is
  never invoked; one warning is logged; the function returned is the trivial one, and
  calling it changes nothing. The model of \<^verbatim>\<open>subscribe\<close> has no failing branch, as the
  source has no \<^verbatim>\<open>throw\<close>.
\<close>

theorem unsupported_degrades_safely:
  assumes "isIOS d" and "\<not> isVisualViewportSupported d"
  shows "\<not> isSupported d
    \<and> ios_run d ios_evs = ios_subscribe d
    \<and> callback_calls (initWithCallback d ios_evs env evs) = []
    \<and> warnings (initWithCallback d ios_evs env evs) =
        [''On-Screen-Keyboard detection not supported on this version of iOS'']
    \<and> returned (initWithCallback d ios_evs env evs) = Ios_unsubscribe Return_undefined
    \<and> ios_step (ios_run d ios_evs) Call_unsubscribe = ios_run d ios_evs"
proof -
  have run: "ios_run d ios_evs = ios_subscribe d"
    using assms(2) by (simp add: ios_run_def ios_run_unsupported)
  have sub: "ios_subscribe d =
     \<lparr>listening = False, previous = one_time_initial, delivered = [],
      console_warn = [''On-Screen-Keyboard detection not supported on this version of iOS''],
      unsubscribe = Return_undefined\<rparr>"
    using assms(2) by (simp add: ios_subscribe_def ios_isSupported_def)
  show ?thesis
    using assms by (simp add: run sub isSupported_def ios_isSupported_def initWithCallback_def)
qed

theorem unsupported_degrades_safely_witness:
  "isIOS \<lparr>ua_has_Macintosh = False, ua_has_iPhone = True, ua_has_Mobile = True,
          isTouchable = True, isVisualViewportSupported = False\<rparr>
   \<and> \<not> isSupported \<lparr>ua_has_Macintosh = False, ua_has_iPhone = True, ua_has_Mobile = True,
          isTouchable = True, isVisualViewportSupported = False\<rparr>
   \<and> callback_calls
        (initWithCallback
           \<lparr>ua_has_Macintosh = False, ua_has_iPhone = True, ua_has_Mobile = True,
            isTouchable = True, isVisualViewportSupported = False\<rparr>
           [ViewportResize 800 600, Call_unsubscribe, ViewportResize 800 800]
           (\<lambda>t. \<lparr>innerWidth = 400, innerHeight = 800, availHeight = 850,
                  orientation_type = ''portrait-primary'', visibilityState = ''visible'',
                  activeElement = Body_element\<rparr>)
           []) = []"
  using unsupported_degrades_safely
    [of "\<lparr>ua_has_Macintosh = False, ua_has_iPhone = True, ua_has_Mobile = True,
          isTouchable = True, isVisualViewportSupported = False\<rparr>"
        "[ViewportResize 800 600, Call_unsubscribe, ViewportResize 800 800]"
        "\<lambda>t. \<lparr>innerWidth = 400, innerHeight = 800, availHeight = 850,
                  orientation_type = ''portrait-primary'', visibilityState = ''visible'',
                  activeElement = Body_element\<rparr>"
        "[]"]
  by (simp add: isIOS_def isIPad_def isIPhone_def)



subsection \<open>Strategy B: the resize-delta classifier\<close>

text \<open>A recorded height of 0 is falsy in the source and is treated like a missing key.\<close>

lemma classify_zero_baseline:
  "m (getScreenOrientationType p) = Some 0 \<Longrightarrow> classify p m s = classify_without_baseline p s"
  by (simp add: classify_def)



subsection \<open>Duplicate suppression\<close>

lemma skipRepeats_from_subset: "set (skipRepeats_from prev s) \<subseteq> set s"
proof (induction s arbitrary: prev)
  case Nil
  then show ?case by simp
next
  case (Cons a s)
  obtain t x where a: "a = (t, x)" by (cases a)
  show ?case
    using Cons [of prev] Cons [of "Some x"] a by auto
qed

lemma skipRepeats_from_hd:
  "skipRepeats_from prev s \<noteq> [] \<Longrightarrow> Some (snd (hd (skipRepeats_from prev s))) \<noteq> prev"
proof (induction s)
  case Nil
  then show ?case by simp
next
  case (Cons a s)
  obtain t x where a: "a = (t, x)" by (cases a)
  show ?case
    using Cons a by (cases "prev = Some x") auto
qed

lemma skipRepeats_from_distinct_adj: "distinct_adj (map snd (skipRepeats_from prev s))"
proof (induction s arbitrary: prev)
  case Nil
  then show ?case by simp
next
  case (Cons a s)
  obtain t x where a: "a = (t, x)" by (cases a)
  show ?case
  proof (cases "prev = Some x")
    case True
    then show ?thesis using Cons a by simp
  next
    case False
    have "distinct_adj (x # map snd (skipRepeats_from (Some x) s))"
      using Cons [of "Some x"] skipRepeats_from_hd [of "Some x" s]
      by (cases "skipRepeats_from (Some x) s") (auto simp: distinct_adj_Cons)
    then show ?thesis using False a by simp
  qed
qed

lemma skipRepeats_from_chronological:
  "chronological s \<Longrightarrow> chronological (skipRepeats_from prev s)"
proof (induction s arbitrary: prev)
  case Nil
  then show ?case by simp
next
  case (Cons a s)
  obtain t x where a: "a = (t, x)" by (cases a)
  have tl: "chronological s" and le: "\<forall>u \<in> set (map fst s). t \<le> u"
    using Cons.prems a by (auto simp: chronological_def)
  have "\<forall>u \<in> set (map fst (skipRepeats_from (Some x) s)). t \<le> u"
    using le skipRepeats_from_subset [of "Some x" s] by auto
  then show ?case
    using Cons.IH [OF tl] a by (auto simp: chronological_def)
qed

lemma ios_invariant:
  "distinct_adj (delivered (foldl ios_step (ios_subscribe d) evs))
   \<and> previous (foldl ios_step (ios_subscribe d) evs) =
       (if delivered (foldl ios_step (ios_subscribe d) evs) = [] then one_time_initial
        else last (delivered (foldl ios_step (ios_subscribe d) evs)))"
proof (induction evs rule: rev_induct)
  case Nil
  then show ?case by (simp add: ios_subscribe_def)
next
  case (snoc e evs)
  define s where "s = foldl ios_step (ios_subscribe d) evs"
  have inv: "distinct_adj (delivered s)"
    "previous s = (if delivered s = [] then one_time_initial else last (delivered s))"
    using snoc by (simp_all add: s_def)
  have st: "onResize_state ih vh \<noteq> one_time_initial" for ih vh
    by (simp add: onResize_state_def one_time_initial_def)
  show ?case
  proof (cases e)
    case (ViewportResize ih vh)
    then show ?thesis
      using inv st [of ih vh]
      by (auto simp: s_def [symmetric] onResize_def skipDuplicates_def distinct_adj_append_iff)
  next
    case Call_unsubscribe
    then show ?thesis
      using inv by (auto simp: s_def [symmetric] split: unsubscribe_fn.splits)
  qed
qed

text \<open>
  C8. Whatever the events, under either strategy, the consumer callback never receives
  the same state twice in a row. Strategy A's filter starts from the stored value
  \<^verbatim>\<open>_one_time_initial_\<close>, which is neither state, stores each value it forwards, and
  forwards a value exactly when it differs from the stored one; Strategy B ends in
  \<open>skipRepeats\<close>.
\<close>

theorem no_duplicate_emissions:
  "distinct_adj (callback_calls (initWithCallback d ios_evs env evs))
   \<and> distinct_adj (delivered (ios_run d ios_evs))
   \<and> distinct_adj (map snd (osk env evs))
   \<and> one_time_initial \<noteq> ''visible'' \<and> one_time_initial \<noteq> ''hidden''
   \<and> previous (ios_subscribe d) = one_time_initial
   \<and> previous (ios_run d ios_evs) =
       (if delivered (ios_run d ios_evs) = [] then one_time_initial
        else last (delivered (ios_run d ios_evs)))
   \<and> (snd (skipDuplicates prev nxt) = [nxt] \<longleftrightarrow> nxt \<noteq> prev)
   \<and> (snd (skipDuplicates prev nxt) = [] \<longleftrightarrow> nxt = prev)
   \<and> fst (skipDuplicates prev nxt) = nxt"
proof -
  have B: "distinct_adj (map snd (osk env evs))"
    by (simp add: osk_def skipRepeats_def skipRepeats_from_distinct_adj)
  have A: "distinct_adj (delivered (ios_run d ios_evs))"
    and P: "previous (ios_run d ios_evs) =
       (if delivered (ios_run d ios_evs) = [] then one_time_initial
        else last (delivered (ios_run d ios_evs)))"
    using ios_invariant [of d ios_evs] by (simp_all add: ios_run_def)
  have C: "distinct_adj (callback_calls (initWithCallback d ios_evs env evs))"
    using A B by (simp add: initWithCallback_def)
  have S: "previous (ios_subscribe d) = one_time_initial"
    by (simp add: ios_subscribe_def)
  show ?thesis
    using A B C P S by (simp add: one_time_initial_def skipDuplicates_def)
qed

theorem no_duplicate_emissions_witness:
  "delivered
     (ios_run \<lparr>ua_has_Macintosh = False, ua_has_iPhone = True, ua_has_Mobile = True,
               isTouchable = True, isVisualViewportSupported = True\<rparr>
        [ViewportResize 800 800, ViewportResize 800 790, ViewportResize 800 600,
         ViewportResize 800 500, ViewportResize 800 790])
     = [''hidden'', ''visible'', ''hidden'']
   \<and> distinct_adj [''hidden'', ''visible'', ''hidden'']"
  using no_duplicate_emissions
    [of "\<lparr>ua_has_Macintosh = False, ua_has_iPhone = True, ua_has_Mobile = True,
               isTouchable = True, isVisualViewportSupported = True\<rparr>"
        "[ViewportResize 800 800, ViewportResize 800 790, ViewportResize 800 600,
         ViewportResize 800 500, ViewportResize 800 790]"]
  by (simp add: ios_run_def ios_subscribe_def ios_isSupported_def onResize_def
      skipDuplicates_def onResize_state_def relativeDifference_def js_div_def
      one_time_initial_def)

subsection \<open>Streams stay in chronological order\<close>

lemma chronological_Nil [simp]: "chronological []"
  by (simp add: chronological_def)

lemma chronological_Cons:
  "chronological (a # s) \<longleftrightarrow> (\<forall>b \<in> set s. fst a \<le> fst b) \<and> chronological s"
  by (auto simp: chronological_def)

lemma chronological_filter: "chronological s \<Longrightarrow> chronological (filter P s)"
  by (induction s) (auto simp: chronological_Cons)

lemma chronological_takeWhile: "chronological s \<Longrightarrow> chronological (takeWhile P s)"
proof (induction s)
  case Nil
  then show ?case by simp
next
  case (Cons a s)
  have "\<forall>b \<in> set (takeWhile P s). fst a \<le> fst b"
    using Cons.prems by (auto simp: chronological_Cons dest: set_takeWhileD)
  then show ?case
    using Cons by (simp add: chronological_Cons)
qed

lemma chronological_delay: "chronological s \<Longrightarrow> chronological (delay d s)"
proof (induction s)
  case Nil
  then show ?case by (simp add: delay_def)
next
  case (Cons a s)
  have "\<forall>b \<in> set (delay d s). fst a + d \<le> fst b"
    using Cons.prems by (auto simp: chronological_Cons delay_def)
  then show ?case
    using Cons by (cases a) (auto simp: chronological_Cons delay_def)
qed

lemma debounce_times:
  "(u, x) \<in> set (debounce d s) \<Longrightarrow> \<exists>t. (t, x) \<in> set s \<and> u = t + d"
  by (induction d s rule: debounce.induct) (auto split: if_splits)

lemma chronological_debounce: "chronological s \<Longrightarrow> chronological (debounce d s)"
proof (induction d s rule: debounce.induct)
  case (1 d)
  then show ?case by simp
next
  case (2 d t x)
  then show ?case by (simp add: chronological_Cons)
next
  case (3 d t x t' y rest)
  have tl: "chronological ((t', y) # rest)"
    using "3.prems" by (simp add: chronological_Cons)
  have "\<forall>b \<in> set (debounce d ((t', y) # rest)). t + d \<le> fst b"
  proof
    fix b
    assume b: "b \<in> set (debounce d ((t', y) # rest))"
    obtain u z where uz: "b = (u, z)" by (cases b)
    obtain w where "(w, z) \<in> set ((t', y) # rest)" and "u = w + d"
      using debounce_times [of u z d "(t', y) # rest"] b uz by blast
    then show "t + d \<le> fst b"
      using "3.prems" uz by (auto simp: chronological_Cons)
  qed
  then show ?case
    using 3 tl by (auto simp: chronological_Cons)
qed

lemma scan_from_times: "map fst (scan_from f acc s) = map fst s"
  by (induction s arbitrary: acc) auto

lemma chronological_scan: "chronological s \<Longrightarrow> chronological (scan f seed s)"
  using scan_from_times [of f seed s]
  by (auto simp: scan_def chronological_def)

lemma snapshot_subset_times: "b \<in> set (snapshot f vals s) \<Longrightarrow> fst b \<in> fst ` set s"
proof (induction s)
  case Nil
  then show ?case by simp
next
  case (Cons a s)
  then show ?case by (cases a) (auto split: option.splits)
qed

lemma chronological_snapshot: "chronological s \<Longrightarrow> chronological (snapshot f vals s)"
proof (induction s)
  case Nil
  then show ?case by simp
next
  case (Cons a s)
  obtain t b where a: "a = (t, b)" by (cases a)
  have "\<forall>c \<in> set (snapshot f vals s). t \<le> fst c"
    using Cons.prems a snapshot_subset_times [of _ f vals s]
    by (fastforce simp: chronological_Cons)
  then show ?case
    using Cons a by (auto simp: chronological_Cons split: option.splits)
qed

lemma join_iff: "(t, x) \<in> set (join s) \<longleftrightarrow> (t, Some x) \<in> set s"
  by (induction s rule: join.induct) auto

lemma chronological_join: "chronological s \<Longrightarrow> chronological (join s)"
proof (induction s rule: join.induct)
  case 1
  then show ?case by simp
next
  case (2 t rest)
  then show ?case by (simp add: chronological_Cons)
next
  case (3 t x rest)
  have "\<forall>b \<in> set (join rest). t \<le> fst b"
  proof
    fix b assume "b \<in> set (join rest)"
    then have "(fst b, Some (snd b)) \<in> set rest"
      using join_iff [of "fst b" "snd b" rest] by simp
    then show "t \<le> fst b"
      using "3.prems" by (fastforce simp: chronological_Cons)
  qed
  then show ?case using 3 by (simp add: chronological_Cons)
qed

lemma set_merge: "set (merge xs ys) = set xs \<union> set ys"
  by (induction xs ys rule: merge.induct) auto

lemma chronological_merge:
  "chronological xs \<Longrightarrow> chronological ys \<Longrightarrow> chronological (merge xs ys)"
proof (induction xs ys rule: merge.induct)
  case (1 ys)
  then show ?case by simp
next
  case (2 x xs)
  then show ?case by simp
next
  case (3 t x xs u y ys)
  show ?case
  proof (cases "t \<le> u")
    case True
    have "\<forall>b \<in> set (merge xs ((u, y) # ys)). t \<le> fst b"
      using "3.prems" True by (fastforce simp: chronological_Cons set_merge)
    then show ?thesis
      using 3 True by (simp add: chronological_Cons)
  next
    case False
    have "\<forall>b \<in> set (merge ((t, x) # xs) ys). u \<le> fst b"
      using "3.prems" False by (fastforce simp: chronological_Cons set_merge)
    then show ?thesis
      using 3 False by (simp add: chronological_Cons)
  qed
qed

lemma switchLatest_focus_times:
  "b \<in> set (switchLatest_focus d fs) \<Longrightarrow> \<exists>a \<in> set fs. fst a \<le> fst b"
proof (induction fs)
  case Nil
  then show ?case by simp
next
  case (Cons a fs)
  obtain t e where a: "a = (t, e)" by (cases a)
  show ?case
    using Cons a by (cases fs) (auto split: if_splits)
qed

lemma chronological_switchLatest_focus:
  "chronological fs \<Longrightarrow> chronological (switchLatest_focus d fs)"
proof (induction fs)
  case Nil
  then show ?case by simp
next
  case (Cons a fs)
  obtain t e where a: "a = (t, e)" by (cases a)
  have tl: "chronological fs" and le: "\<forall>b \<in> set fs. t \<le> fst b"
    using Cons.prems a by (auto simp: chronological_Cons)
  have rec: "chronological (switchLatest_focus d fs)"
    using Cons.IH tl by simp
  have after: "\<forall>b \<in> set (switchLatest_focus d fs). t \<le> fst b"
    using switchLatest_focus_times [of _ d fs] le by fastforce
  show ?case
  proof (cases "e = Focusin")
    case True
    then show ?thesis using a rec after by (simp add: chronological_Cons)
  next
    case False
    show ?thesis
    proof (cases fs)
      case Nil
      then show ?thesis using a False by (simp add: chronological_Cons)
    next
      case (Cons b later)
      obtain t' e' where b: "b = (t', e')" by (cases b)
      show ?thesis
      proof (cases "t + d \<le> t'")
        case True
        have "\<forall>c \<in> set fs. t' \<le> fst c"
          using tl Cons b by (auto simp: chronological_Cons)
        then have "\<forall>c \<in> set (switchLatest_focus d fs). t + d \<le> fst c"
          using switchLatest_focus_times [of _ d fs] True by fastforce
        then show ?thesis
          using a False Cons b True rec by (simp add: chronological_Cons)
      next
        case no: False
        then show ?thesis
          using a False Cons b rec by simp
      qed
    qed
  qed
qed

lemma chronological_focus: "chronological evs \<Longrightarrow> chronological (focus evs)"
  by (simp add: focus_def chronological_filter)

lemma chronological_domEvent: "chronological evs \<Longrightarrow> chronological (domEvent e evs)"
  by (simp add: domEvent_def chronological_filter)

lemma chronological_isUnfocused_raw:
  "chronological evs \<Longrightarrow> chronological (isUnfocused_raw env evs)"
  by (simp add: isUnfocused_raw_def startWith_def chronological_Cons
      chronological_switchLatest_focus chronological_focus)

lemma chronological_isUnfocused:
  "chronological evs \<Longrightarrow> chronological (isUnfocused env evs)"
  by (simp add: isUnfocused_def skipRepeats_def skipRepeats_from_chronological
      chronological_isUnfocused_raw)

lemma chronological_map_values:
  "chronological (map (\<lambda>(t, x). (t, g t x)) s) = chronological s"
proof -
  have h: "map fst (map (\<lambda>(t, x). (t, g t x)) s) = map fst s"
    by (induction s) auto
  show ?thesis by (simp only: chronological_def h)
qed

lemma chronological_hidden_on_unfocus:
  "chronological evs \<Longrightarrow> chronological (hidden_on_unfocus env evs)"
  unfolding hidden_on_unfocus_def
  by (simp only: chronological_map_values chronological_filter chronological_isUnfocused)

lemma chronological_layoutHeightOnVerticalResize:
  "chronological evs \<Longrightarrow> chronological (layoutHeightOnVerticalResize env evs)"
  unfolding layoutHeightOnVerticalResize_def
  by (intro chronological_filter chronological_scan)
    (simp only: chronological_map_values chronological_debounce chronological_domEvent)

lemma chronological_classified:
  "chronological evs \<Longrightarrow> chronological (classified env evs)"
  unfolding classified_def
  by (intro chronological_join chronological_snapshot chronological_delay
      chronological_layoutHeightOnVerticalResize)

lemma chronological_osk_merged:
  "chronological evs \<Longrightarrow> chronological (osk_merged env evs)"
  by (simp add: osk_merged_def chronological_merge chronological_hidden_on_unfocus
      chronological_classified)

lemma chronological_until: "chronological s \<Longrightarrow> chronological (until sig s)"
  by (auto simp: until_def chronological_takeWhile split: list.splits)

lemma until_keeps:
  assumes "chronological s" and "a \<in> set s" and "\<forall>b \<in> set sig. fst a < fst b"
  shows "a \<in> set (until sig s)"
proof (cases sig)
  case Nil
  then show ?thesis using assms by (simp add: until_def)
next
  case (Cons b later)
  obtain u e where b: "b = (u, e)" by (cases b)
  have lt: "fst a < u" using assms(3) Cons b by simp
  have "a \<in> set (takeWhile (\<lambda>(t, x). t < u) s)"
    using assms(1,2) lt
  proof (induction s)
    case Nil
    then show ?case by simp
  next
    case (Cons c s)
    then show ?case
      by (cases c) (auto simp: chronological_Cons)
  qed
  then show ?thesis using Cons b by (simp add: until_def)
qed

lemma skipRepeats_from_delivers:
  assumes "chronological s" and "(t, v) \<in> set s"
  shows "(t, v) \<in> set (skipRepeats_from prev s)
       \<or> (case filter (\<lambda>(w, x). w < t) (skipRepeats_from prev s) of
            [] \<Rightarrow> prev = Some v
          | b # bs \<Rightarrow> snd (last (b # bs)) = v)"
  using assms
proof (induction s arbitrary: prev)
  case Nil
  then show ?case by simp
next
  case (Cons a s)
  obtain t0 x0 where a: "a = (t0, x0)" by (cases a)
  have tl: "chronological s" and le: "\<forall>b \<in> set s. t0 \<le> fst b"
    using Cons.prems(1) a by (auto simp: chronological_Cons)
  have later: "\<forall>b \<in> set (skipRepeats_from p s). t0 \<le> fst b" for p
    using le skipRepeats_from_subset [of p s] by auto
  have nothing_before: "filter (\<lambda>(w, x). w < t0) (skipRepeats_from p s) = []" for p
    using later [of p] by (auto simp: filter_empty_conv)
  show ?case
  proof (cases "(t, v) = (t0, x0)")
    case True
    then show ?thesis
      using a nothing_before [of prev] by (cases "prev = Some x0") auto
  next
    case False
    then have mem: "(t, v) \<in> set s" using Cons.prems(2) a by auto
    then have t0t: "t0 \<le> t" using le by fastforce
    show ?thesis
    proof (cases "prev = Some x0")
      case True
      then show ?thesis using Cons.IH [OF tl mem, of prev] a by simp
    next
      case new: False
      note ih = Cons.IH [OF tl mem, of "Some x0"]
      show ?thesis
      proof (cases "t0 < t")
        case True
        then show ?thesis
          using ih a new
          by (cases "filter (\<lambda>(w, x). w < t) (skipRepeats_from (Some x0) s)") auto
      next
        case False
        then have "t0 = t" using t0t by simp
        then show ?thesis
          using ih a new nothing_before [of "Some x0"] by auto
      qed
    qed
  qed
qed

subsection \<open>Evaluating the network on a concrete session\<close>

lemmas network_defs =
  osk_def osk_merged_def hidden_on_unfocus_def isUnfocused_def isUnfocused_raw_def
  skipRepeats_def startWith_def focus_def classified_def layoutHeights_def scan_def
  gated_candidates_def rejectCapture_def delay_def baseline_candidates_def
  layoutHeightOnUnfocus_def layoutHeightOnOSKFreeOrientationChange_def domEvent_def
  layoutHeightOnVerticalResize_def next_resize_sample_def classify_def
  classify_without_baseline_def latest_def until_def userUnsubscription_def
  initial_layoutHeights_def getScreenOrientationType_def isAnyElementActive_def
  RESIZE_QUIET_PERIOD_def LAYOUT_RESIZE_TO_LAYOUT_HEIGHT_FIX_DELAY_def
  INPUT_ELEMENT_FOCUS_JUMP_DELAY_def SCREEN_ORIENTATION_TO_WINDOW_RESIZE_DELAY_def
  both_recorded_def documentVisibility_def assoc_sample_def initialLayoutHeight_def
  approximateBrowserToolbarHeight_def

lemmas example_defs =
  focused_phone_def background_phone_def two_resizes_def idle_phone_def focus_twice_def
  turned_phone_def one_turn_def turn_then_blur_def blur_then_turn_def double_turn_def

text \<open>
  The spec's example of baseline-driven classification: with the baseline 700 recorded
  for portrait, a width-preserving resize to 600 gives \<^verbatim>\<open>visible\<close> after the settle
  delay, and the resize back to 700 gives \<^verbatim>\<open>hidden\<close>.
\<close>

lemma baseline_driven_example:
  "osk focused_phone two_resizes = [(1900, ''visible''), (5900, ''hidden'')]"
  by (simp add: network_defs example_defs)

subsection \<open>Strategy B: hidden on a confirmed loss of focus\<close>

text \<open>
  C6, as the claim states it, fails. On the idle phone the focus-out of instant 2000 is
  confirmed at 2700 with no focus-in in between, but the state last delivered is already
  \<^verbatim>\<open>hidden\<close>, so nothing is delivered at 2700 and the next invocation of the callback,
  at 5000, is \<^verbatim>\<open>visible\<close>.
\<close>

theorem focus_forced_hidden_counterexample:
  "isUnfocused idle_phone focus_twice = [(0, True), (1000, False), (2700, True), (4000, False)]
   \<and> osk idle_phone focus_twice = [(0, ''hidden''), (5000, ''visible'')]"
  by (simp add: network_defs example_defs)

text \<open>
  C6, amended. Whenever \<open>isUnfocused\<close> turns true at an instant \<open>t\<close> before the consumer
  has unsubscribed, either the callback is invoked with \<^verbatim>\<open>hidden\<close> at \<open>t\<close>, or the last
  invocation before \<open>t\<close> was already \<^verbatim>\<open>hidden\<close> (and the duplicate filter drops the
  repeat).
\<close>

theorem focus_forced_hidden:
  assumes "chronological evs"
    and "(t, True) \<in> set (isUnfocused env evs)"
    and "\<forall>a \<in> set (userUnsubscription evs). t < fst a"
  shows "(t, ''hidden'') \<in> set (osk env evs)
       \<or> (filter (\<lambda>(w, x). w < t) (osk env evs) \<noteq> []
          \<and> snd (last (filter (\<lambda>(w, x). w < t) (osk env evs))) = ''hidden'')"
proof -
  have "(t, ''hidden'') \<in> set (hidden_on_unfocus env evs)"
    using assms(2) by (force simp: hidden_on_unfocus_def)
  then have "(t, ''hidden'') \<in> set (osk_merged env evs)"
    by (simp add: osk_merged_def set_merge)
  then have mem: "(t, ''hidden'') \<in> set (until (userUnsubscription evs) (osk_merged env evs))"
    using until_keeps [OF chronological_osk_merged [OF assms(1)], of "(t, ''hidden'')"] assms(3)
    by simp
  have chron: "chronological (until (userUnsubscription evs) (osk_merged env evs))"
    using assms(1) by (simp add: chronological_until chronological_osk_merged)
  show ?thesis
    using skipRepeats_from_delivers [OF chron mem, of None]
    by (cases "filter (\<lambda>(w, x). w < t) (osk env evs)")
      (auto simp: osk_def skipRepeats_def)
qed

theorem focus_forced_hidden_witness:
  "chronological [(1000, Focusout)]
   \<and> (1700, True) \<in> set (isUnfocused focused_phone [(1000, Focusout)])
   \<and> userUnsubscription [(1000, Focusout)] = []
   \<and> osk focused_phone [(1000, Focusout)] = [(1700, ''hidden'')]"
  using focus_forced_hidden [of "[(1000, Focusout)]" 1700 focused_phone]
  by (simp add: network_defs example_defs chronological_def)

subsection \<open>Strategy B: the focus tracker\<close>

lemma switchLatest_focus_focusin:
  "(t, Focusin) \<in> set fs \<Longrightarrow> (t, False) \<in> set (switchLatest_focus d fs)"
proof (induction fs)
  case Nil
  then show ?case by simp
next
  case (Cons a fs)
  obtain t0 e0 where a: "a = (t0, e0)" by (cases a)
  show ?case
    using Cons a by (cases fs) (auto split: if_splits)
qed

lemma switchLatest_focus_true_origin:
  "(u, True) \<in> set (switchLatest_focus d fs) \<Longrightarrow>
     \<exists>t e. u = t + d \<and> (t, e) \<in> set fs \<and> e \<noteq> Focusin"
proof (induction fs)
  case Nil
  then show ?case by simp
next
  case (Cons a fs)
  obtain t0 e0 where a: "a = (t0, e0)" by (cases a)
  show ?case
    using Cons a by (cases fs) (auto split: if_splits)
qed

lemma switchLatest_focus_cancel:
  assumes "chronological fs" and "(t', Focusin) \<in> set fs" and "t < t'" and "t' < t + d"
  shows "(t + d, True) \<notin> set (switchLatest_focus d fs)"
  using assms(1,2)
proof (induction fs)
  case Nil
  then show ?case by simp
next
  case (Cons a fs)
  obtain t0 e0 where a: "a = (t0, e0)" by (cases a)
  have tl: "chronological fs" and le: "\<forall>b \<in> set fs. t0 \<le> fst b"
    using Cons.prems(1) a by (auto simp: chronological_Cons)
  show ?case
  proof (cases "(t', Focusin) \<in> set fs")
    case True
    note rec = Cons.IH [OF tl True]
    have "t0 \<le> t'" using le True by fastforce
    then have ne: "t0 + d \<noteq> t + d \<or> \<not> (\<forall>b \<in> set fs. t0 + d \<le> fst b)"
      using True assms(4) by fastforce
    show ?thesis
    proof (cases fs)
      case Nil
      then show ?thesis using True by simp
    next
      case (Cons b later)
      obtain t1 e1 where b: "b = (t1, e1)" by (cases b)
      have "t1 \<le> t'" using tl True Cons b by (auto simp: chronological_Cons)
      then have "\<not> (t + d \<le> t1)" using assms(4) by simp
      then show ?thesis
        using rec a Cons b by (auto split: if_splits)
    qed
  next
    case False
    then have hd: "t0 = t'" "e0 = Focusin" using Cons.prems(2) a by auto
    have "(t + d, True) \<notin> set (switchLatest_focus d fs)"
    proof
      assume "(t + d, True) \<in> set (switchLatest_focus d fs)"
      then obtain w e where "t + d = w + d" and "(w, e) \<in> set fs"
        using switchLatest_focus_true_origin by blast
      then show False using le hd assms(3) by fastforce
    qed
    then show ?thesis using a hd by simp
  qed
qed

lemma switchLatest_focus_confirm:
  assumes "chronological fs" and "(t, e) \<in> set fs" and "e \<noteq> Focusin"
    and "\<forall>b \<in> set fs. (snd b = Focusin \<longrightarrow> fst b < t \<or> t + d \<le> fst b)
                      \<and> (fst b \<le> t \<or> t + d \<le> fst b)"
  shows "(t + d, True) \<in> set (switchLatest_focus d fs)"
  using assms
proof (induction fs arbitrary: e)
  case Nil
  then show ?case by simp
next
  case (Cons a fs)
  obtain t0 e0 where a: "a = (t0, e0)" by (cases a)
  have tl: "chronological fs" and le: "\<forall>b \<in> set fs. t0 \<le> fst b"
    using Cons.prems(1) a by (auto simp: chronological_Cons)
  have quiet: "\<forall>b \<in> set fs. (snd b = Focusin \<longrightarrow> fst b < t \<or> t + d \<le> fst b)
                      \<and> (fst b \<le> t \<or> t + d \<le> fst b)"
    using Cons.prems(4) by simp
  have keep: "set (switchLatest_focus d fs) \<subseteq> set (switchLatest_focus d (a # fs))"
    using a by (cases fs) (auto split: if_splits)
  show ?case
  proof (cases "\<exists>e'. (t, e') \<in> set fs \<and> e' \<noteq> Focusin")
    case True
    then obtain e' where "(t, e') \<in> set fs" and "e' \<noteq> Focusin" by blast
    then have "(t + d, True) \<in> set (switchLatest_focus d fs)"
      using Cons.IH [OF tl _ _ quiet] by blast
    then show ?thesis using keep by blast
  next
    case False
    then have hd: "t0 = t" "e0 = e" using Cons.prems(2,3) a by auto
    show ?thesis
    proof (cases fs)
      case Nil
      then show ?thesis using a hd Cons.prems(3) by simp
    next
      case (Cons b later)
      obtain t1 e1 where b: "b = (t1, e1)" by (cases b)
      have b_in: "(t1, e1) \<in> set fs" using Cons b by simp
      have "t + d \<le> t1"
      proof (rule ccontr)
        assume n: "\<not> t + d \<le> t1"
        have q: "(e1 = Focusin \<longrightarrow> t1 < t \<or> t + d \<le> t1) \<and> (t1 \<le> t \<or> t + d \<le> t1)"
          using quiet b_in by fastforce
        have "t \<le> t1" using le b_in hd by fastforce
        then have "t1 = t" and "e1 \<noteq> Focusin" using q n by auto
        then show False using False b_in by auto
      qed
      then show ?thesis
        using a hd Cons b \<open>e \<noteq> Focusin\<close> by simp
    qed
  qed
qed

lemma focus_events: "(t, e) \<in> set (focus evs) \<longleftrightarrow> (t, e) \<in> set evs \<and> (e = Focusin \<or> e = Focusout)"
  by (auto simp: focus_def)

text \<open>
  C7. For events in chronological order: every focus-in gives \<open>False\<close> at its own
  instant; a \<open>True\<close> after the initial value comes 700 ms after a focus-out, and it does
  come when no focus-in (and no later focus-out) falls inside those 700 ms; it is
  cancelled when a focus-in arrives before the 700 ms have elapsed; the initial value is
  true exactly when \<^verbatim>\<open>document.activeElement\<close> is missing or is the body; and what the
  consumers of \<open>isUnfocused\<close> see has no two equal values in a row.
\<close>

theorem isUnfocused_stream:
  assumes "chronological evs"
  shows "(\<forall>t. (t, Focusin) \<in> set evs \<longrightarrow> (t, False) \<in> set (isUnfocused_raw env evs))
    \<and> (\<forall>u. (u, True) \<in> set (tl (isUnfocused_raw env evs)) \<longrightarrow>
          (\<exists>t. u = t + 700 \<and> (t, Focusout) \<in> set evs))
    \<and> (\<forall>t. (t, Focusout) \<in> set evs
            \<and> (\<forall>b \<in> set (focus evs).
                  (snd b = Focusin \<longrightarrow> fst b < t \<or> t + 700 \<le> fst b)
                  \<and> (fst b \<le> t \<or> t + 700 \<le> fst b))
          \<longrightarrow> (t + 700, True) \<in> set (tl (isUnfocused_raw env evs)))
    \<and> (\<forall>t t'. (t', Focusin) \<in> set evs \<and> t < t' \<and> t' < t + 700
          \<longrightarrow> (t + 700, True) \<notin> set (tl (isUnfocused_raw env evs)))
    \<and> hd (isUnfocused_raw env evs) = (0, \<not> isAnyElementActive (env 0))
    \<and> hd (isUnfocused env evs) = (0, \<not> isAnyElementActive (env 0))
    \<and> (\<not> isAnyElementActive (env 0) \<longleftrightarrow>
          activeElement (env 0) = No_element \<or> activeElement (env 0) = Body_element)
    \<and> isUnfocused env evs = skipRepeats (isUnfocused_raw env evs)
    \<and> distinct_adj (map snd (isUnfocused env evs))"
proof -
  let ?sw = "switchLatest_focus 700 (focus evs)"
  have raw: "isUnfocused_raw env evs = (0, \<not> isAnyElementActive (env 0)) # ?sw"
    by (simp add: isUnfocused_raw_def startWith_def INPUT_ELEMENT_FOCUS_JUMP_DELAY_def)
  have chron: "chronological (focus evs)"
    using assms by (simp add: chronological_focus)
  have p1: "\<forall>t. (t, Focusin) \<in> set evs \<longrightarrow> (t, False) \<in> set (isUnfocused_raw env evs)"
    using switchLatest_focus_focusin [of _ "focus evs" 700]
    by (simp add: raw focus_events)
  have p2: "\<forall>u. (u, True) \<in> set (tl (isUnfocused_raw env evs)) \<longrightarrow>
          (\<exists>t. u = t + 700 \<and> (t, Focusout) \<in> set evs)"
  proof (intro allI impI)
    fix u assume "(u, True) \<in> set (tl (isUnfocused_raw env evs))"
    then obtain t e where "u = t + 700" and "(t, e) \<in> set (focus evs)" and "e \<noteq> Focusin"
      using switchLatest_focus_true_origin [of u 700 "focus evs"] by (auto simp: raw)
    then show "\<exists>t. u = t + 700 \<and> (t, Focusout) \<in> set evs"
      by (auto simp: focus_events)
  qed
  have p3: "\<forall>t. (t, Focusout) \<in> set evs
            \<and> (\<forall>b \<in> set (focus evs).
                  (snd b = Focusin \<longrightarrow> fst b < t \<or> t + 700 \<le> fst b)
                  \<and> (fst b \<le> t \<or> t + 700 \<le> fst b))
          \<longrightarrow> (t + 700, True) \<in> set (tl (isUnfocused_raw env evs))"
  proof (intro allI impI)
    fix t
    assume h: "(t, Focusout) \<in> set evs
            \<and> (\<forall>b \<in> set (focus evs).
                  (snd b = Focusin \<longrightarrow> fst b < t \<or> t + 700 \<le> fst b)
                  \<and> (fst b \<le> t \<or> t + 700 \<le> fst b))"
    then have "(t, Focusout) \<in> set (focus evs)" by (simp add: focus_events)
    then show "(t + 700, True) \<in> set (tl (isUnfocused_raw env evs))"
      using switchLatest_focus_confirm [OF chron, of t Focusout 700] h by (simp add: raw)
  qed
  have p4: "\<forall>t t'. (t', Focusin) \<in> set evs \<and> t < t' \<and> t' < t + 700
          \<longrightarrow> (t + 700, True) \<notin> set (tl (isUnfocused_raw env evs))"
  proof (intro allI impI)
    fix t t'
    assume "(t', Focusin) \<in> set evs \<and> t < t' \<and> t' < t + 700"
    then show "(t + 700, True) \<notin> set (tl (isUnfocused_raw env evs))"
      using switchLatest_focus_cancel [OF chron, of t' t 700]
      by (simp add: raw focus_events)
  qed
  have p5: "hd (isUnfocused env evs) = (0, \<not> isAnyElementActive (env 0))"
    by (simp add: isUnfocused_def skipRepeats_def raw)
  have p6: "\<not> isAnyElementActive (env 0) \<longleftrightarrow>
          activeElement (env 0) = No_element \<or> activeElement (env 0) = Body_element"
    by (auto simp: isAnyElementActive_def)
  have p7: "distinct_adj (map snd (isUnfocused env evs))"
    by (simp add: isUnfocused_def skipRepeats_def skipRepeats_from_distinct_adj)
  show ?thesis
    using p1 p2 p3 p4 p5 p6 p7 by (simp add: raw isUnfocused_def)
qed

theorem isUnfocused_stream_witness:
  "chronological focus_twice
   \<and> isUnfocused_raw idle_phone focus_twice =
       [(0, True), (1000, False), (2700, True), (4000, False)]
   \<and> isUnfocused idle_phone focus_twice =
       [(0, True), (1000, False), (2700, True), (4000, False)]
   \<and> (1000, Focusin) \<in> set focus_twice \<and> (2000, Focusout) \<in> set focus_twice
   \<and> isUnfocused_raw idle_phone [(1000, Focusout), (1200, Focusin)] = [(0, True), (1200, False)]
   \<and> isUnfocused idle_phone [(1000, Focusout), (1200, Focusin)] = [(0, True), (1200, False)]"
  using isUnfocused_stream [of focus_twice idle_phone]
    isUnfocused_stream [of "[(1000, Focusout), (1200, Focusin)]" idle_phone]
  by (simp add: network_defs example_defs chronological_def)

subsection \<open>Strategy B: the BaselineMap\<close>

lemma UNIV_orientation: "(UNIV :: orientation set) = {portrait, landscape}"
  using orientation.exhaust by auto

lemma card_dom_baseline_map: "card (dom (m :: baseline_map)) \<le> 2"
proof -
  have "finite (UNIV :: orientation set)"
    by (simp add: UNIV_orientation)
  then have "card (dom m) \<le> card (UNIV :: orientation set)"
    by (intro card_mono) simp_all
  then show ?thesis by (simp add: UNIV_orientation)
qed

lemma dom_assoc_sample: "dom (assoc_sample m c) = insert (screenOrientation c) (dom m)"
  by (simp add: assoc_sample_def)

lemma scan_from_assoc_grows:
  "sorted_wrt (\<lambda>a b. dom (snd a) \<subseteq> dom (snd b)) (scan_from assoc_sample acc s)
   \<and> (\<forall>a \<in> set (scan_from assoc_sample acc s). dom acc \<subseteq> dom (snd a))"
proof (induction s arbitrary: acc)
  case Nil
  then show ?case by simp
next
  case (Cons c s)
  obtain t x where c: "c = (t, x)" by (cases c)
  have "dom acc \<subseteq> dom (assoc_sample acc x)"
    by (auto simp: dom_assoc_sample)
  then show ?case
    using Cons [of "assoc_sample acc x"] c by fastforce
qed

lemma skipAfter_take: "\<exists>k. skipAfter p s = take k s"
proof (induction s)
  case Nil
  then show ?case by simp
next
  case (Cons a s)
  obtain t x where a: "a = (t, x)" by (cases a)
  from Cons obtain k where k: "skipAfter p s = take k s" by blast
  show ?case
  proof (cases "p x")
    case True
    then have "skipAfter p (a # s) = take 1 (a # s)" using a by simp
    then show ?thesis by blast
  next
    case False
    then have "skipAfter p (a # s) = take (Suc k) (a # s)" using a k by simp
    then show ?thesis by blast
  qed
qed

lemma skipAfter_subset: "set (skipAfter p s) \<subseteq> set s"
  using skipAfter_take [of p s] by (metis set_take_subset)

lemma skipAfter_frozen:
  "i < length (skipAfter p s) \<Longrightarrow> p (snd (skipAfter p s ! i)) \<Longrightarrow>
     Suc i = length (skipAfter p s)"
proof (induction s arbitrary: i)
  case Nil
  then show ?case by simp
next
  case (Cons a s)
  obtain t x where a: "a = (t, x)" by (cases a)
  show ?case
  proof (cases "p x")
    case True
    then show ?thesis using Cons.prems a by simp
  next
    case False
    then show ?thesis
      using Cons a by (cases i) auto
  qed
qed

lemma skipAfter_hd: "hd (skipAfter p (a # s)) = a"
  by (cases a) simp


text \<open>
  C3, as the claim states it, fails: the BaselineMap does not start empty. With no event
  at all, the first map the tracker holds already records the height at subscription
  for the orientation at subscription.
\<close>

theorem baseline_map_growth_counterexample:
  "layoutHeights focused_phone [] \<noteq> []
   \<and> dom (snd (hd (layoutHeights focused_phone []))) = {portrait}
   \<and> snd (hd (layoutHeights focused_phone [])) portrait = Some 700"
  by (simp add: network_defs example_defs)

text \<open>
  C3, amended. The BaselineMap starts as the one-entry map from the orientation at
  subscription to the window height at subscription; every later map keeps that key and
  has at most 2 entries; the set of recorded orientations only grows; and a map that
  records both orientations is the last the tracker emits.
\<close>

theorem baseline_map_growth:
  "layoutHeights env evs \<noteq> []
   \<and> hd (layoutHeights env evs) = (0, initial_layoutHeights env)
   \<and> dom (initial_layoutHeights env) = {getScreenOrientationType (env 0)}
   \<and> (\<forall>a \<in> set (layoutHeights env evs).
         card (dom (snd a)) \<le> 2 \<and> getScreenOrientationType (env 0) \<in> dom (snd a))
   \<and> sorted_wrt (\<lambda>a b. dom (snd a) \<subseteq> dom (snd b)) (layoutHeights env evs)
   \<and> (\<forall>i. i < length (layoutHeights env evs)
            \<and> both_recorded (snd (layoutHeights env evs ! i))
         \<longrightarrow> Suc i = length (layoutHeights env evs))"
proof -
  let ?full = "scan assoc_sample (initial_layoutHeights env) (gated_candidates env evs)"
  have lh: "layoutHeights env evs = skipAfter both_recorded ?full"
    by (simp add: layoutHeights_def)
  have full: "?full = (0, initial_layoutHeights env)
      # scan_from assoc_sample (initial_layoutHeights env) (gated_candidates env evs)"
    by (simp add: scan_def)
  have dom0: "dom (initial_layoutHeights env) = {getScreenOrientationType (env 0)}"
    by (simp add: initial_layoutHeights_def)
  have grows: "sorted_wrt (\<lambda>a b. dom (snd a) \<subseteq> dom (snd b)) ?full"
    and has0: "\<forall>a \<in> set ?full. getScreenOrientationType (env 0) \<in> dom (snd a)"
    using scan_from_assoc_grows [of "initial_layoutHeights env" "gated_candidates env evs"] dom0
    by (auto simp: full)
  obtain k where k: "layoutHeights env evs = take k ?full"
    using skipAfter_take [of both_recorded ?full] lh by auto
  have p1: "layoutHeights env evs \<noteq> []"
    "hd (layoutHeights env evs) = (0, initial_layoutHeights env)"
    unfolding lh full by (simp_all add: skipAfter_hd del: skipAfter.simps)
      (simp split: if_splits)
  have p2: "\<forall>a \<in> set (layoutHeights env evs).
         card (dom (snd a)) \<le> 2 \<and> getScreenOrientationType (env 0) \<in> dom (snd a)"
    using has0 skipAfter_subset [of both_recorded ?full] lh card_dom_baseline_map by auto
  have p3: "sorted_wrt (\<lambda>a b. dom (snd a) \<subseteq> dom (snd b)) (layoutHeights env evs)"
    using grows k by (simp add: sorted_wrt_take)
  have p4: "\<forall>i. i < length (layoutHeights env evs)
            \<and> both_recorded (snd (layoutHeights env evs ! i))
         \<longrightarrow> Suc i = length (layoutHeights env evs)"
    using skipAfter_frozen [of _ both_recorded ?full] lh by simp
  show ?thesis using p1 p2 p3 p4 dom0 by simp
qed

theorem baseline_map_growth_witness:
  "map (\<lambda>(t, m). (t, m portrait, m landscape)) (layoutHeights turned_phone turn_then_blur)
     = [(0, Some 700, None), (2700, Some 700, Some 350)]
   \<and> both_recorded (snd (layoutHeights turned_phone turn_then_blur ! 1))
   \<and> length (layoutHeights turned_phone turn_then_blur) = 2
   \<and> map fst (gated_candidates turned_phone turn_then_blur) = [2700, 6700]"
  using baseline_map_growth [of turned_phone turn_then_blur]
  by (simp add: network_defs example_defs)

subsection \<open>Strategy B: sampling and the visibility gate\<close>



lemma snapshot_iff:
  "(t, c) \<in> set (snapshot f vals s) \<longleftrightarrow>
     (\<exists>a b. latest vals t = Some a \<and> (t, b) \<in> set s \<and> c = f t a b)"
proof (induction s)
  case Nil
  then show ?case by simp
next
  case (Cons x s)
  obtain u b where x: "x = (u, b)" by (cases x)
  show ?case
    using Cons x by (cases "latest vals u") auto
qed








subsection \<open>Strategy B: the baseline candidate after an orientation change\<close>






subsection \<open>Strategy B: what the classifier emits\<close>

text \<open>
  The classifier's emissions are exactly the results of \<open>classify\<close> on the samples of
  width-preserving resizes, taken after the settle delay with the BaselineMap and the
  screen as they are then.
\<close>

lemma settle_delay: "LAYOUT_RESIZE_TO_LAYOUT_HEIGHT_FIX_DELAY = 400"
  by (simp add: LAYOUT_RESIZE_TO_LAYOUT_HEIGHT_FIX_DELAY_def INPUT_ELEMENT_FOCUS_JUMP_DELAY_def
      SCREEN_ORIENTATION_TO_WINDOW_RESIZE_DELAY_def RESIZE_QUIET_PERIOD_def)

lemma classified_iff:
  "(t, v) \<in> set (classified env evs) \<longleftrightarrow>
     (\<exists>m s. latest (layoutHeights env evs) t = Some m
        \<and> (t, s) \<in> set (delay 400 (layoutHeightOnVerticalResize env evs))
        \<and> classify (env t) m s = Some v)"
proof -
  have "(t, v) \<in> set (classified env evs) \<longleftrightarrow>
     (\<exists>m s. latest (layoutHeights env evs) t = Some m
        \<and> (t, s) \<in> set (delay 400 (layoutHeightOnVerticalResize env evs))
        \<and> Some v = classify (env t) m s)"
    by (simp add: classified_def join_iff snapshot_iff settle_delay)
  then show ?thesis by (simp add: eq_commute [of "Some v"])
qed

lemma width_preserving_samples:
  "(t, s) \<in> set (layoutHeightOnVerticalResize env evs) \<Longrightarrow> isJustHeightResize s"
  by (auto simp: layoutHeightOnVerticalResize_def)

end
